theory Spec2Isabelle
  imports Main
begin

section \<open>Strings and integers as the bot reads them\<close>

text \<open>
  Values, identities, labels and timestamps are cells of CSV rows, that is Python strings.
  They are modelled as \<open>string\<close>, a \<open>char\<close> being the code point of a character, from
  0 to 255; text with a code point above 255 is not a value of the type. On these strings
  \<open>str.strip\<close> removes the characters for which \<open>str.isspace\<close> holds (codes 9 to 13, 28 to
  32, 133 and 160), and \<open>str.lower\<close> maps \<open>A\<close>..\<open>Z\<close> and the capital letters 192 to 222,
  the sign 215 apart, to the letter 32 places further.
\<close>

definition is_space :: "char \<Rightarrow> bool" where
  "is_space c =
     (let n = (of_char c :: nat)
      in (9 \<le> n \<and> n \<le> 13) \<or> (28 \<le> n \<and> n \<le> 32) \<or> n = 133 \<or> n = 160)"

definition strip :: "string \<Rightarrow> string" where
  "strip s = rev (dropWhile is_space (rev (dropWhile is_space s)))"

definition lower_char :: "char \<Rightarrow> char" where
  "lower_char c =
     (let n = (of_char c :: nat)
      in if (65 \<le> n \<and> n \<le> 90) \<or> (192 \<le> n \<and> n \<le> 222 \<and> n \<noteq> 215) then char_of (n + 32)
         else c)"

definition lower :: "string \<Rightarrow> string" where
  "lower s = map lower_char s"

definition startswith_eq :: "string \<Rightarrow> bool" where
  "startswith_eq s = (case s of [] \<Rightarrow> False | c # _ \<Rightarrow> c = CHR ''='')"

text \<open>\<open>str(n)\<close> for an integer: the decimal digits, with a minus sign below zero.\<close>

definition digit_char :: "nat \<Rightarrow> char" where
  "digit_char d = char_of (48 + d)"

fun str_nat :: "nat \<Rightarrow> string" where
  "str_nat n = (if n < 10 then [digit_char n] else str_nat (n div 10) @ [digit_char (n mod 10)])"

declare str_nat.simps [simp del]

definition str_int :: "int \<Rightarrow> string" where
  "str_int i = (if i < 0 then CHR ''-'' # str_nat (nat (- i)) else str_nat (nat i))"

text \<open>
  \<open>int(s)\<close> for a string: the white space that the conversion skips around the literal
  is narrower than that of \<open>str.strip\<close> (codes 9 to 13 and 32, and the two spaces 133 and
  160, which the conversion first turns into blanks; the separators 28 to 31 are not
  skipped); one sign is allowed, and the digits may be grouped by single underscores.
  Anything else raises \<open>ValueError\<close>, which is \<open>None\<close> here. The interpreter's limit on the
  length of a decimal literal is left out.
\<close>

definition is_int_space :: "char \<Rightarrow> bool" where
  "is_int_space c =
     (let n = (of_char c :: nat) in (9 \<le> n \<and> n \<le> 13) \<or> n = 32 \<or> n = 133 \<or> n = 160)"

definition int_strip :: "string \<Rightarrow> string" where
  "int_strip s = rev (dropWhile is_int_space (rev (dropWhile is_int_space s)))"

definition is_digit :: "char \<Rightarrow> bool" where
  "is_digit c = (let n = (of_char c :: nat) in 48 \<le> n \<and> n \<le> 57)"

definition digit_val :: "char \<Rightarrow> nat" where
  "digit_val c = of_char c - 48"

fun digits_ok :: "string \<Rightarrow> bool" where
  "digits_ok [] = False"
| "digits_ok [c] = is_digit c"
| "digits_ok (c # d # cs) =
     (if is_digit c then
        (if d = CHR ''_'' then digits_ok cs else digits_ok (d # cs))
      else False)"

definition digits_value :: "string \<Rightarrow> nat" where
  "digits_value s = foldl (\<lambda>acc c. 10 * acc + digit_val c) 0 (filter is_digit s)"

definition py_int :: "string \<Rightarrow> int option" where
  "py_int s =
     (let t = int_strip s in
      case t of
        [] \<Rightarrow> None
      | c # cs \<Rightarrow>
          if c = CHR ''-'' then (if digits_ok cs then Some (- int (digits_value cs)) else None)
          else if c = CHR ''+'' then (if digits_ok cs then Some (int (digits_value cs)) else None)
          else (if digits_ok t then Some (int (digits_value t)) else None))"

section \<open>Pool files\<close>

text \<open>
  A pool file is the list of its CSV rows, the header first; a row is the list of its
  cells (\<open>Value\<close>, \<open>ID\<close>, \<open>Username\<close>, \<open>Date\<close>), and may be shorter than four cells.
\<close>

type_synonym row = "string list"

definition header :: row where
  "header = [''Value'', ''ID'', ''Username'', ''Date'']"

text \<open>\<open>_count_user_records\<close>: the rows after the header whose second cell parses to the identity.\<close>

fun count_user_loop :: "row list \<Rightarrow> int \<Rightarrow> nat \<Rightarrow> nat" where
  "count_user_loop [] user_id count = count"
| "count_user_loop (row # rest) user_id count =
     (if length row > 1 \<and> row ! 1 \<noteq> [] then
        (case py_int (row ! 1) of
           None \<Rightarrow> count_user_loop rest user_id count
         | Some n \<Rightarrow>
             if n = user_id then count_user_loop rest user_id (count + 1)
             else count_user_loop rest user_id count)
      else count_user_loop rest user_id count)"

definition count_user_records :: "row list \<Rightarrow> int \<Rightarrow> nat" where
  "count_user_records rows user_id = count_user_loop (drop 1 rows) user_id 0"

text \<open>
  \<open>_assign_records_csv\<close>: the scan over the rows after the header. It stops once
  \<open>count\<close> values are taken; a row it visits is padded to four cells in place; a row
  with an identity is passed over, and so is one whose value is empty after trimming and
  removing one leading \<open>=\<close>. The function returns the rows as mutated and the values taken.
\<close>

definition pad4 :: "row \<Rightarrow> row" where
  "pad4 row = (if length row < 4 then row @ replicate (4 - length row) [] else row)"

definition scan_value :: "string \<Rightarrow> string" where
  "scan_value cell = (let v = strip cell in if startswith_eq v then tl v else v)"

fun assign_loop ::
  "row list \<Rightarrow> int \<Rightarrow> int \<Rightarrow> string \<Rightarrow> string \<Rightarrow> string list \<Rightarrow> row list \<times> string list" where
  "assign_loop [] count user_id username now taken = ([], taken)"
| "assign_loop (row # rest) count user_id username now taken =
     (if int (length taken) \<ge> count then (row # rest, taken)
      else
        let row4 = pad4 row in
        if row4 ! 1 \<noteq> [] then
          (case assign_loop rest count user_id username now taken of
             (rest', taken') \<Rightarrow> (row4 # rest', taken'))
        else
          let v = scan_value (row4 ! 0) in
          if v = [] then
            (case assign_loop rest count user_id username now taken of
               (rest', taken') \<Rightarrow> (row4 # rest', taken'))
          else
            (case assign_loop rest count user_id username now (taken @ [v]) of
               (rest', taken') \<Rightarrow>
                 (row4[1 := str_int user_id, 2 := username, 3 := now] # rest', taken')))"

definition assign_records_csv ::
  "row list \<Rightarrow> int \<Rightarrow> int \<Rightarrow> string \<Rightarrow> string \<Rightarrow> row list \<times> string list" where
  "assign_records_csv rows count user_id username now =
     (case assign_loop (drop 1 rows) count user_id username now [] of
        (rest', taken) \<Rightarrow> (take 1 rows @ rest', taken))"

text \<open>
  The worker of \<open>allocate_for_user\<close>, on the rows read from the pool file. The first
  component is the row list handed to \<open>_write_csv\<close>, or \<open>None\<close> when the file is not
  written; the reason is \<open>None\<close> on success.
\<close>

datatype reason = already_got | not_enough

definition free_count_all :: "row list \<Rightarrow> int" where
  "free_count_all rows = int (length (filter (\<lambda>r. length r < 2 \<or> r ! 1 = []) rows))"

definition worker ::
  "row list \<Rightarrow> int \<Rightarrow> int \<Rightarrow> string \<Rightarrow> string \<Rightarrow> row list option \<times> string list \<times> reason option" where
  "worker rows total_allowed user_id username now =
     (let current = int (count_user_records rows user_id) in
      if current \<ge> total_allowed then (None, [], Some already_got)
      else
        let can_give = total_allowed - current;
            free_count = free_count_all rows
        in
        if free_count < can_give then (None, [], Some not_enough)
        else
          (case assign_records_csv rows can_give user_id username now of
             (rows', taken) \<Rightarrow> ((if taken \<noteq> [] then Some rows' else None), taken, None)))"

section \<open>The import\<close>

text \<open>
  \<open>clean_value\<close> takes a spreadsheet cell: \<open>None\<close>, a float that is an integer
  (\<open>CFloatInt i\<close>, rendered as \<open>str(int(val))\<close>), or any other value, given by its
  \<open>str()\<close> rendering (a string is its own rendering).
\<close>

datatype cell = CNone | CFloatInt int | COther string

fun clean_value :: "cell \<Rightarrow> string option" where
  "clean_value CNone = None"
| "clean_value (CFloatInt i) = Some (str_int i)"
| "clean_value (COther v) =
     (let s = strip v;
          s' = (if startswith_eq s then tl s else s)
      in if s' = [] then None else Some s')"

text \<open>\<open>_get_existing_values\<close>: the trimmed, lowercased first cells of the rows after the header.\<close>

fun existing_loop :: "row list \<Rightarrow> string set \<Rightarrow> string set" where
  "existing_loop [] vals = vals"
| "existing_loop (row # rest) vals =
     (if row \<noteq> [] \<and> row ! 0 \<noteq> [] then existing_loop rest (insert (lower (strip (row ! 0))) vals)
      else existing_loop rest vals)"

definition get_existing_values :: "row list \<Rightarrow> string set" where
  "get_existing_values rows = existing_loop (drop 1 rows) {}"

text \<open>The loop of \<open>_add_new_values\<close> over the candidates, which are strings.\<close>

fun add_loop :: "row list \<Rightarrow> string set \<Rightarrow> nat \<Rightarrow> string list \<Rightarrow> row list \<times> string set \<times> nat" where
  "add_loop rows existing added [] = (rows, existing, added)"
| "add_loop rows existing added (val # vals) =
     (case clean_value (COther val) of
        None \<Rightarrow> add_loop rows existing added vals
      | Some val_clean \<Rightarrow>
          if lower val_clean \<notin> existing then
            add_loop (rows @ [[val_clean, [], [], []]]) (insert (lower val_clean) existing)
              (added + 1) vals
          else add_loop rows existing added vals)"

text \<open>
  \<open>_add_new_values\<close> on the rows read from the file: the rows handed to \<open>_write_csv\<close>
  (\<open>None\<close> when nothing is written) and the number of values added.
\<close>

definition add_new_values_rows :: "row list \<Rightarrow> string list \<Rightarrow> row list option \<times> nat" where
  "add_new_values_rows rows new_values =
     (case add_loop rows (get_existing_values rows) 0 new_values of
        (rows', existing', added) \<Rightarrow> ((if added > 0 then Some rows' else None), added))"

section \<open>The store: pool files and the ledger of extra limits\<close>

datatype base_key =
  B_telegram | B_whatsapp | B_max | B_viber | B_instagram | B_vk | B_ok | B_email

definition base_keys :: "base_key list" where
  "base_keys = [B_telegram, B_whatsapp, B_max, B_viber, B_instagram, B_vk, B_ok, B_email]"

fun base_limit :: "base_key \<Rightarrow> int" where
  "base_limit B_telegram = 50"
| "base_limit B_whatsapp = 35"
| "base_limit B_max = 35"
| "base_limit B_viber = 35"
| "base_limit B_instagram = 300"
| "base_limit B_vk = 250"
| "base_limit B_ok = 250"
| "base_limit B_email = 100"

text \<open>
  A pool file may be missing (\<open>None\<close>); \<open>user_limits\<close> is the dictionary that
  \<open>load_user_limits\<close> builds from the ledger file.
\<close>

record state =
  files :: "base_key \<Rightarrow> row list option"
  user_limits :: "int \<times> base_key \<Rightarrow> int option"

definition read_csv :: "state \<Rightarrow> base_key \<Rightarrow> row list" where
  "read_csv st key = (case files st key of None \<Rightarrow> [header] | Some rows \<Rightarrow> rows)"

definition write_csv :: "state \<Rightarrow> base_key \<Rightarrow> row list \<Rightarrow> state" where
  "write_csv st key rows = st\<lparr>files := (files st)(key \<mapsto> rows)\<rparr>"

definition get_user_extra_limit :: "state \<Rightarrow> int \<Rightarrow> base_key \<Rightarrow> int" where
  "get_user_extra_limit st user_id key =
     (case user_limits st (user_id, key) of None \<Rightarrow> 0 | Some extra \<Rightarrow> extra)"

definition set_user_extra_limit :: "state \<Rightarrow> int \<Rightarrow> base_key \<Rightarrow> int \<Rightarrow> state" where
  "set_user_extra_limit st user_id key v = st\<lparr>user_limits := (user_limits st)((user_id, key) \<mapsto> v)\<rparr>"

definition total_allowed :: "state \<Rightarrow> int \<Rightarrow> base_key \<Rightarrow> int" where
  "total_allowed st user_id key = base_limit key + get_user_extra_limit st user_id key"

definition allocate_for_user ::
  "state \<Rightarrow> base_key \<Rightarrow> int \<Rightarrow> string \<Rightarrow> string \<Rightarrow> state \<times> string list \<times> reason option" where
  "allocate_for_user st key user_id username now =
     (case worker (read_csv st key) (total_allowed st user_id key) user_id username now of
        (written, taken, why) \<Rightarrow>
          ((case written of None \<Rightarrow> st | Some rows' \<Rightarrow> write_csv st key rows'), taken, why))"

definition add_new_values :: "state \<Rightarrow> base_key \<Rightarrow> string list \<Rightarrow> state \<times> nat" where
  "add_new_values st key new_values =
     (case add_new_values_rows (read_csv st key) new_values of
        (written, added) \<Rightarrow>
          ((case written of None \<Rightarrow> st | Some rows' \<Rightarrow> write_csv st key rows'), added))"

section \<open>Unlocking\<close>

definition get_user_used_types :: "state \<Rightarrow> int \<Rightarrow> base_key list" where
  "get_user_used_types st user_id =
     filter (\<lambda>key. count_user_records (read_csv st key) user_id > 0) base_keys"

text \<open>
  The loop of \<open>on_clear_command\<close> over the pools the identity has records in; it
  returns the store, the pools unlocked and the pools skipped with what remains there.
  The handler's checks of the chat and of the topic come before and touch no file.
\<close>

fun clear_loop ::
  "state \<Rightarrow> int \<Rightarrow> base_key list \<Rightarrow> base_key list \<Rightarrow> (base_key \<times> int) list
     \<Rightarrow> state \<times> base_key list \<times> (base_key \<times> int) list" where
  "clear_loop st user_id [] unlocked skipped = (st, unlocked, skipped)"
| "clear_loop st user_id (key # keys) unlocked skipped =
     (let allowed = total_allowed st user_id key;
          current = int (count_user_records (read_csv st key) user_id)
      in
      if current \<ge> allowed then
        clear_loop (set_user_extra_limit st user_id key current) user_id keys
          (unlocked @ [key]) skipped
      else
        clear_loop st user_id keys unlocked (skipped @ [(key, allowed - current)]))"

definition on_clear_command :: "state \<Rightarrow> int \<Rightarrow> state \<times> base_key list \<times> (base_key \<times> int) list" where
  "on_clear_command st user_id =
     (let used_types = get_user_used_types st user_id in
      if used_types = [] then (st, [], []) else clear_loop st user_id used_types [] [])"

section \<open>Statistics\<close>




section \<open>Vocabulary of the properties\<close>

text \<open>
  A row is claimed when it has a second cell that is not empty (the scan and the supply
  check both read it so); it is claimed by an identity when that cell parses to the
  identity, which is how \<open>_count_user_records\<close> counts. \<open>fld\<close> reads a cell, a missing cell
  being empty.
\<close>

definition claimed :: "row \<Rightarrow> bool" where
  "claimed row = (length row > 1 \<and> row ! 1 \<noteq> [])"

definition claimed_by :: "int \<Rightarrow> row \<Rightarrow> bool" where
  "claimed_by u row = (claimed row \<and> py_int (row ! 1) = Some u)"

definition fld :: "row \<Rightarrow> nat \<Rightarrow> string" where
  "fld row j = (if j < length row then row ! j else [])"

definition claim_row :: "int \<Rightarrow> string \<Rightarrow> string \<Rightarrow> row \<Rightarrow> row" where
  "claim_row user_id username now row = (pad4 row)[1 := str_int user_id, 2 := username, 3 := now]"

text \<open>What one pass of the scan may do to a row: nothing, pad it, or claim it if it was free.\<close>

definition scan_step :: "int \<Rightarrow> string \<Rightarrow> string \<Rightarrow> row \<Rightarrow> row \<Rightarrow> bool" where
  "scan_step user_id username now r r' =
     (r' = r \<or> r' = pad4 r \<or>
      (\<not> claimed r \<and> scan_value (fld r 0) \<noteq> [] \<and> r' = claim_row user_id username now r))"

text \<open>
  The row the import appends for a value; the keys the import compares a candidate with
  (the trimmed, lowercased first cells of the records that have one); and the rows the loop
  of the import has appended in memory after a list of candidates.
\<close>

definition new_row :: "string \<Rightarrow> row" where
  "new_row v = [v, [], [], []]"

definition stored_keys :: "row list \<Rightarrow> string set" where
  "stored_keys rows = (\<lambda>r. lower (strip (r ! 0))) ` {r \<in> set (drop 1 rows). r \<noteq> [] \<and> r ! 0 \<noteq> []}"

definition added_rows :: "row list \<Rightarrow> string list \<Rightarrow> row list" where
  "added_rows rows new_values =
     drop (length rows) (fst (add_loop rows (get_existing_values rows) 0 new_values))"

text \<open>
  An identity has exhausted a pool when it holds at least its total allowance there; the
  quota holds for a pool and an identity when it holds at most that allowance.
\<close>

definition exhausted :: "state \<Rightarrow> int \<Rightarrow> base_key \<Rightarrow> bool" where
  "exhausted st user_id key =
     (int (count_user_records (read_csv st key) user_id) \<ge> total_allowed st user_id key)"

definition quota_ok :: "state \<Rightarrow> base_key \<Rightarrow> int \<Rightarrow> bool" where
  "quota_ok st key user_id =
     (int (count_user_records (read_csv st key) user_id) \<le> total_allowed st user_id key)"

text \<open>
  The operations that change the store, and a run of them. \<open>keeps_quota\<close> is the
  condition on a direct call of \<open>set_user_extra_limit\<close>: the new value covers what the
  identity already holds in the pool (the call made by the unlocking passes the count itself).
\<close>

datatype op =
  Allocate base_key int string string
| Import base_key "string list"
| Unlock int
| SetExtra int base_key int

fun step :: "state \<Rightarrow> op \<Rightarrow> state" where
  "step st (Allocate key user_id username now) = fst (allocate_for_user st key user_id username now)"
| "step st (Import key new_values) = fst (add_new_values st key new_values)"
| "step st (Unlock user_id) = fst (on_clear_command st user_id)"
| "step st (SetExtra user_id key v) = set_user_extra_limit st user_id key v"

fun keeps_quota :: "state \<Rightarrow> op \<Rightarrow> bool" where
  "keeps_quota st (SetExtra user_id key v) =
     (int (count_user_records (read_csv st key) user_id) \<le> base_limit key + v)"
| "keeps_quota st (Allocate key user_id username now) = True"
| "keeps_quota st (Import key new_values) = True"
| "keeps_quota st (Unlock user_id) = True"

fun admissible :: "state \<Rightarrow> op list \<Rightarrow> bool" where
  "admissible st [] = True"
| "admissible st (x # xs) = (keeps_quota st x \<and> admissible (step st x) xs)"


text \<open>
  A candidate is trimmed when the value it normalizes to, if any, has no white space at
  either end; \<open>clean_value\<close> leaves a blank in front only where one follows a leading \<open>=\<close>.
\<close>

definition trimmed_candidate :: "string \<Rightarrow> bool" where
  "trimmed_candidate c =
     (case clean_value (COther c) of None \<Rightarrow> True | Some v \<Rightarrow> strip v = v)"

text \<open>Pools and stores used as concrete inputs below.\<close>

definition padded_pool :: "row list" where
  "padded_pool = [header, ['' foo'', [], [], []]]"

definition empty_store :: state where
  "empty_store = \<lparr>files = (\<lambda>_. None), user_limits = (\<lambda>_. None)\<rparr>"

definition short_store :: state where
  "short_store = \<lparr>files = (\<lambda>k. if k = B_telegram then
       Some [header, [''a'', [], [], []], [''b'', [], [], []], [''c'', [], [], []]] else None),
     user_limits = (\<lambda>_. None)\<rparr>"

definition blank_store :: state where
  "blank_store = \<lparr>files = (\<lambda>k. if k = B_whatsapp then
       Some (header # replicate 35 [''='', [], [], []]) else None),
     user_limits = (\<lambda>_. None)\<rparr>"

definition short_batch_store :: state where
  "short_batch_store = \<lparr>files = (\<lambda>k. if k = B_whatsapp then
       Some (header # [''='', [], [], []] # map (\<lambda>n. [str_nat n, [], [], []]) [1..<35]) else None),
     user_limits = (\<lambda>_. None)\<rparr>"

definition mixed_store :: state where
  "mixed_store = \<lparr>files = (\<lambda>k. if k = B_whatsapp then
       Some (header # [''x'', ''9'', ''bob'', ''2024.01.05 10:00:00''] #
             map (\<lambda>n. [str_nat n, [], [], []]) [1..<36]) else None),
     user_limits = (\<lambda>_. None)\<rparr>"

definition full_store :: state where
  "full_store = \<lparr>files = (\<lambda>k. if k = B_whatsapp then
       Some (header # replicate 35 [''x'', ''7'', ''u'', ''2024.01.05 10:00:00'']) else None),
     user_limits = (\<lambda>_. None)\<rparr>"

definition over_store :: state where
  "over_store = \<lparr>files = (\<lambda>k. if k = B_whatsapp then
       Some (header # replicate 36 [''x'', ''7'', ''u'', ''2024.01.05 10:00:00'']) else None),
     user_limits = (\<lambda>p. if p = (7, B_whatsapp) then Some 1 else None)\<rparr>"



section \<open>Decimal rendering and parsing\<close>

lemma dropWhile_none: "\<forall>c\<in>set s. \<not> P c \<Longrightarrow> dropWhile P s = s"
  by (cases s) auto

lemma int_strip_no_space: "\<forall>c\<in>set s. \<not> is_int_space c \<Longrightarrow> int_strip s = s"
  by (simp add: int_strip_def dropWhile_none)

lemma is_digit_digit_char: "d < 10 \<Longrightarrow> is_digit (digit_char d)"
  by (simp add: is_digit_def digit_char_def)

lemma digit_val_digit_char: "d < 10 \<Longrightarrow> digit_val (digit_char d) = d"
  by (simp add: digit_val_def digit_char_def)

lemma is_digit_not_space: "is_digit c \<Longrightarrow> \<not> is_int_space c"
  by (simp add: is_digit_def is_int_space_def Let_def)

lemma is_digit_not_sign: "is_digit c \<Longrightarrow> c \<noteq> CHR ''-'' \<and> c \<noteq> CHR ''+'' \<and> c \<noteq> CHR ''_''"
  by (auto simp add: is_digit_def)

lemma str_nat_digits: "\<forall>c\<in>set (str_nat n). is_digit c"
proof (induction n rule: str_nat.induct)
  case (1 n)
  show ?case
  proof (cases "n < 10")
    case True
    then show ?thesis by (simp add: str_nat.simps [of n] is_digit_digit_char)
  next
    case False
    with 1 show ?thesis by (simp add: str_nat.simps [of n] is_digit_digit_char)
  qed
qed

lemma str_nat_nonempty: "str_nat n \<noteq> []"
  by (simp add: str_nat.simps [of n])

lemma digits_ok_all: "s \<noteq> [] \<Longrightarrow> \<forall>c\<in>set s. is_digit c \<Longrightarrow> digits_ok s"
  by (induction s rule: digits_ok.induct) (auto dest: is_digit_not_sign)

lemma digits_value_snoc: "is_digit c \<Longrightarrow> digits_value (s @ [c]) = 10 * digits_value s + digit_val c"
  by (simp add: digits_value_def)

lemma digits_value_str_nat: "digits_value (str_nat n) = n"
proof (induction n rule: str_nat.induct)
  case (1 n)
  show ?case
  proof (cases "n < 10")
    case True
    then show ?thesis
      by (simp add: str_nat.simps [of n] digits_value_def is_digit_digit_char digit_val_digit_char)
  next
    case False
    with 1 show ?thesis
      by (simp add: str_nat.simps [of n] digits_value_snoc is_digit_digit_char digit_val_digit_char)
  qed
qed

lemma py_int_str_int: "py_int (str_int i) = Some i"
proof (cases "i < 0")
  case True
  have ns: "\<forall>c\<in>set (CHR ''-'' # str_nat (nat (- i))). \<not> is_int_space c"
  proof -
    have "\<not> is_int_space CHR ''-''" by (simp add: is_int_space_def)
    then show ?thesis using str_nat_digits [of "nat (- i)"] is_digit_not_space by auto
  qed
  have "int_strip (str_int i) = CHR ''-'' # str_nat (nat (- i))"
    using True ns by (simp add: str_int_def int_strip_no_space del: set_simps)
  with True show ?thesis
    by (simp add: py_int_def digits_ok_all str_nat_nonempty str_nat_digits digits_value_str_nat)
next
  case False
  have ns: "\<forall>c\<in>set (str_nat (nat i)). \<not> is_int_space c"
    using str_nat_digits [of "nat i"] by (auto dest: is_digit_not_space)
  have st: "int_strip (str_int i) = str_nat (nat i)"
    using False ns by (simp add: str_int_def int_strip_no_space)
  obtain c cs where cs: "str_nat (nat i) = c # cs"
    using str_nat_nonempty [of "nat i"] by (cases "str_nat (nat i)") auto
  have "is_digit c" using str_nat_digits [of "nat i"] cs by simp
  then have sg: "c \<noteq> CHR ''-''" "c \<noteq> CHR ''+''" using is_digit_not_sign by auto
  have ok: "digits_ok (c # cs)"
    using digits_ok_all [of "str_nat (nat i)"] str_nat_nonempty str_nat_digits cs by metis
  have "digits_value (c # cs) = nat i" using digits_value_str_nat [of "nat i"] cs by simp
  with False st cs sg ok show ?thesis
    by (simp add: py_int_def)
qed

lemma str_int_nonempty: "str_int i \<noteq> []"
  by (simp add: str_int_def str_nat_nonempty)

section \<open>The count and the scan\<close>

lemma count_user_loop_filter:
  "count_user_loop rs u c = c + length (filter (claimed_by u) rs)"
  by (induction rs u c rule: count_user_loop.induct)
     (auto simp: claimed_by_def claimed_def split: option.splits)

lemma pad4_length: "length (pad4 r) \<ge> 4"
  by (simp add: pad4_def)

lemma pad4_nth: "pad4 r ! j = fld r j" if "j < 4"
  using that by (auto simp: pad4_def fld_def nth_append)

lemma pad4_claimed: "claimed (pad4 r) = claimed r"
  using pad4_nth [of 1 r] pad4_length [of r] by (auto simp: claimed_def fld_def)

lemma pad4_snd: "(pad4 r ! 1 \<noteq> []) = claimed r"
  using pad4_nth [of 1 r] by (auto simp: claimed_def fld_def)

lemma pad4_claimed_by: "claimed_by u (pad4 r) = claimed_by u r"
  using pad4_nth [of 1 r] pad4_claimed [of r] by (auto simp: claimed_by_def fld_def claimed_def)

lemma claim_row_claimed_by: "claimed_by u (claim_row uid un now r) = (u = uid)"
  using pad4_length [of r]
  by (auto simp: claimed_by_def claimed_def claim_row_def py_int_str_int str_int_nonempty)

lemma not_claimed_by: "\<not> claimed r \<Longrightarrow> \<not> claimed_by u r"
  by (simp add: claimed_by_def)

lemma assign_loop_Cons:
  "assign_loop (row # rest) count uid un now taken =
     (if int (length taken) \<ge> count then (row # rest, taken)
      else if claimed row \<or> scan_value (fld row 0) = [] then
        (case assign_loop rest count uid un now taken of (r, t) \<Rightarrow> (pad4 row # r, t))
      else
        (case assign_loop rest count uid un now (taken @ [scan_value (fld row 0)]) of
           (r, t) \<Rightarrow> (claim_row uid un now row # r, t)))"
  using pad4_snd [of row] pad4_nth [of 0 row]
  by (simp add: Let_def claim_row_def)

lemma assign_loop_rel:
  "assign_loop rs count uid un now taken = (rs', taken') \<Longrightarrow>
     list_all2 (scan_step uid un now) rs rs'"
proof (induction rs arbitrary: taken rs' taken')
  case Nil
  then show ?case by simp
next
  case (Cons row rest)
  show ?case
    using Cons.prems Cons.IH
    by (auto simp: assign_loop_Cons scan_step_def list_all2_refl simp del: assign_loop.simps
             split: if_splits prod.splits)
qed

lemma assign_loop_taken:
  "assign_loop rs count uid un now taken = (rs', taken') \<Longrightarrow>
     \<exists>new. taken' = taken @ new \<and>
       length (filter (claimed_by uid) rs') = length (filter (claimed_by uid) rs) + length new \<and>
       (new \<noteq> [] \<longrightarrow> int (length taken') \<le> count)"
proof (induction rs arbitrary: taken rs' taken')
  case Nil
  then show ?case by simp
next
  case (Cons row rest)
  show ?case
  proof (cases "int (length taken) \<ge> count")
    case True
    with Cons.prems show ?thesis by (simp add: assign_loop_Cons del: assign_loop.simps)
  next
    case False
    show ?thesis
    proof (cases "claimed row \<or> scan_value (fld row 0) = []")
      case True
      with False Cons.prems obtain r1 where
        r1: "assign_loop rest count uid un now taken = (r1, taken')" and rs': "rs' = pad4 row # r1"
        by (auto simp: assign_loop_Cons simp del: assign_loop.simps split: prod.splits)
      from Cons.IH [OF r1] rs' show ?thesis by (auto simp: pad4_claimed_by)
    next
      case nc: False
      let ?v = "scan_value (fld row 0)"
      from nc False Cons.prems obtain r1 where
        r1: "assign_loop rest count uid un now (taken @ [?v]) = (r1, taken')"
        and rs': "rs' = claim_row uid un now row # r1"
        by (auto simp: assign_loop_Cons simp del: assign_loop.simps split: prod.splits)
      from Cons.IH [OF r1] obtain new where
        n: "taken' = (taken @ [?v]) @ new"
           "length (filter (claimed_by uid) r1) = length (filter (claimed_by uid) rest) + length new"
           "new \<noteq> [] \<longrightarrow> int (length taken') \<le> count"
        by blast
      have nb: "\<not> claimed_by uid row" using nc by (simp add: claimed_by_def)
      have le: "int (length taken') \<le> count"
      proof (cases "new = []")
        case True
        with n(1) False show ?thesis by simp
      next
        case False
        with n(3) show ?thesis by simp
      qed
      show ?thesis
        apply (rule exI [of _ "?v # new"])
        using n(1,2) rs' nb le by (simp add: claim_row_claimed_by)
    qed
  qed
qed

lemma assign_loop_other:
  "assign_loop rs count uid un now taken = (rs', taken') \<Longrightarrow> u \<noteq> uid \<Longrightarrow>
     filter (claimed_by u) rs' = filter (claimed_by u) rs \<or>
     length (filter (claimed_by u) rs') = length (filter (claimed_by u) rs)"
proof -
  assume a: "assign_loop rs count uid un now taken = (rs', taken')" and ne: "u \<noteq> uid"
  have "list_all2 (scan_step uid un now) rs rs'" using a by (rule assign_loop_rel)
  then have "length (filter (claimed_by u) rs') = length (filter (claimed_by u) rs)"
  proof (induction rule: list_all2_induct)
    case Nil
    then show ?case by simp
  next
    case (Cons r rs r' rs')
    have "claimed_by u r' = claimed_by u r"
      using Cons(1) ne not_claimed_by [of r u]
      by (auto simp: scan_step_def pad4_claimed_by claim_row_claimed_by)
    with Cons show ?case by simp
  qed
  then show ?thesis by simp
qed

lemma drop1_take1: "length rest = length (drop 1 rows) \<Longrightarrow> drop 1 (take 1 rows @ rest) = rest"
  by (cases rows) auto

lemma assign_records_csv_eq:
  "assign_records_csv rows count uid un now = (rows', taken) \<Longrightarrow>
     \<exists>rest'. assign_loop (drop 1 rows) count uid un now [] = (rest', taken) \<and>
       rows' = take 1 rows @ rest'"
  by (auto simp: assign_records_csv_def split: prod.splits)

lemma worker_cases:
  "worker rows allowed uid un now =
     (if int (count_user_records rows uid) \<ge> allowed then (None, [], Some already_got)
      else if free_count_all rows < allowed - int (count_user_records rows uid)
        then (None, [], Some not_enough)
      else (case assign_records_csv rows (allowed - int (count_user_records rows uid)) uid un now of
              (rows', taken) \<Rightarrow> ((if taken \<noteq> [] then Some rows' else None), taken, None)))"
  by (simp add: worker_def Let_def)


lemma assign_records_csv_props:
  assumes "assign_records_csv rows count uid un now = (rows', taken)"
  shows "length rows' = length rows"
    and "list_all2 (scan_step uid un now) rows rows'"
    and "int (count_user_records rows' uid) = int (count_user_records rows uid) + int (length taken)"
    and "taken \<noteq> [] \<Longrightarrow> int (length taken) \<le> count"
    and "u \<noteq> uid \<Longrightarrow> count_user_records rows' u = count_user_records rows u"
proof -
  from assign_records_csv_eq [OF assms] obtain rest' where
    l: "assign_loop (drop 1 rows) count uid un now [] = (rest', taken)"
    and r: "rows' = take 1 rows @ rest'" by blast
  have rel: "list_all2 (scan_step uid un now) (drop 1 rows) rest'"
    using l by (rule assign_loop_rel)
  have len: "length rest' = length (drop 1 rows)"
    using list_all2_lengthD [OF rel] by simp
  have d: "drop 1 rows' = rest'" unfolding r by (rule drop1_take1 [OF len])
  show "length rows' = length rows" using r len by (cases rows) auto
  have "list_all2 (scan_step uid un now) (take 1 rows @ drop 1 rows) (take 1 rows @ rest')"
    using rel by (intro list_all2_appendI) (simp_all add: list_all2_refl scan_step_def)
  then show "list_all2 (scan_step uid un now) rows rows'" using r by simp
  from assign_loop_taken [OF l] obtain new where
    n: "taken = [] @ new"
       "length (filter (claimed_by uid) rest') = length (filter (claimed_by uid) (drop 1 rows)) + length new"
       "new \<noteq> [] \<longrightarrow> int (length taken) \<le> count"
    by blast
  show "int (count_user_records rows' uid) = int (count_user_records rows uid) + int (length taken)"
    using n(1,2) d by (simp add: count_user_records_def count_user_loop_filter)
  show "taken \<noteq> [] \<Longrightarrow> int (length taken) \<le> count" using n(1,3) by simp
  show "u \<noteq> uid \<Longrightarrow> count_user_records rows' u = count_user_records rows u"
    using assign_loop_other [OF l, of u] d by (auto simp: count_user_records_def count_user_loop_filter)
qed

lemma worker_reason:
  "snd (snd (worker rows allowed uid un now)) =
     (if int (count_user_records rows uid) \<ge> allowed then Some already_got
      else if free_count_all rows < allowed - int (count_user_records rows uid) then Some not_enough
      else None)"
  by (simp add: worker_cases split: prod.splits)

lemma worker_failure:
  "snd (snd (worker rows allowed uid un now)) \<noteq> None \<Longrightarrow>
     fst (worker rows allowed uid un now) = None \<and> fst (snd (worker rows allowed uid un now)) = []"
  by (simp add: worker_cases split: prod.splits if_splits)

lemma worker_written:
  "(fst (worker rows allowed uid un now) \<noteq> None) = (fst (snd (worker rows allowed uid un now)) \<noteq> [])"
  by (simp add: worker_cases split: prod.splits if_splits)

section \<open>Allocation on the store\<close>

lemma read_csv_write_csv:
  "read_csv (write_csv st key rows) k = (if k = key then rows else read_csv st k)"
  by (simp add: read_csv_def write_csv_def)

lemma files_write_csv: "k \<noteq> key \<Longrightarrow> files (write_csv st key rows) k = files st k"
  by (simp add: write_csv_def)

lemma user_limits_write_csv: "user_limits (write_csv st key rows) = user_limits st"
  by (simp add: write_csv_def)

lemma allocate_fst:
  "fst (allocate_for_user st key uid un now) =
     (case fst (worker (read_csv st key) (total_allowed st uid key) uid un now) of
        None \<Rightarrow> st | Some rows' \<Rightarrow> write_csv st key rows')"
  by (simp add: allocate_for_user_def split: prod.splits)

lemma allocate_snd:
  "snd (allocate_for_user st key uid un now) =
     snd (worker (read_csv st key) (total_allowed st uid key) uid un now)"
  by (simp add: allocate_for_user_def split: prod.splits)

section \<open>Refusals of the allocation\<close>

text \<open>
  Claim C4. \<open>allocate_for_user\<close> answers \<open>already_got\<close> with no values exactly when the
  identity already holds at least its total allowance in the pool; and whenever it answers
  \<open>already_got\<close> or \<open>not_enough\<close>, the store is the one it started from and the worker
  hands nothing to \<open>_write_csv\<close>.
\<close>

theorem allocate_quota_exhausted:
  "((snd (snd (allocate_for_user st key uid un now)) = Some already_got \<and>
     fst (snd (allocate_for_user st key uid un now)) = []) =
    (int (count_user_records (read_csv st key) uid) \<ge> total_allowed st uid key)) \<and>
   (snd (snd (allocate_for_user st key uid un now)) = Some already_got \<or>
    snd (snd (allocate_for_user st key uid un now)) = Some not_enough \<longrightarrow>
      fst (allocate_for_user st key uid un now) = st \<and>
      fst (worker (read_csv st key) (total_allowed st uid key) uid un now) = None)"
proof -
  let ?w = "worker (read_csv st key) (total_allowed st uid key) uid un now"
  have a: "(snd (snd ?w) = Some already_got \<and> fst (snd ?w) = []) =
        (int (count_user_records (read_csv st key) uid) \<ge> total_allowed st uid key)"
    using worker_failure [of "read_csv st key" "total_allowed st uid key" uid un now]
    by (auto simp: worker_reason split: if_splits)
  have b: "snd (snd ?w) \<noteq> None \<Longrightarrow> fst (allocate_for_user st key uid un now) = st \<and> fst ?w = None"
    using worker_failure [of "read_csv st key" "total_allowed st uid key" uid un now]
    by (simp add: allocate_fst)
  show ?thesis using a b by (auto simp: allocate_snd)
qed

theorem allocate_quota_exhausted_witness:
  "snd (snd (allocate_for_user short_store B_telegram 7 ''u'' ''t'')) = Some not_enough \<and>
   fst (allocate_for_user short_store B_telegram 7 ''u'' ''t'') = short_store"
proof -
  have h: "snd (snd (allocate_for_user short_store B_telegram 7 ''u'' ''t'')) = Some not_enough"
    by code_simp
  show ?thesis
    using h allocate_quota_exhausted [of short_store B_telegram 7 "''u''" "''t''"] by simp
qed

text \<open>
  Claim C10. When the identity has allowance left and the supply check passes, the answer
  is a success (no reason) with the values the scan has taken, even none. With no value
  taken nothing is handed to \<open>_write_csv\<close> and the store is the one before; with a value
  taken the rows as the scan left them are written to the pool file, which then counts, for
  the identity, the records it held before and the values taken.
\<close>

theorem allocate_success_without_claim:
  "int (count_user_records (read_csv st key) uid) < total_allowed st uid key \<Longrightarrow>
   free_count_all (read_csv st key) \<ge>
     total_allowed st uid key - int (count_user_records (read_csv st key) uid) \<Longrightarrow>
   snd (snd (allocate_for_user st key uid un now)) = None \<and>
   fst (snd (allocate_for_user st key uid un now)) =
     snd (assign_records_csv (read_csv st key)
            (total_allowed st uid key - int (count_user_records (read_csv st key) uid)) uid un now) \<and>
   (fst (snd (allocate_for_user st key uid un now)) = [] \<longrightarrow>
      fst (worker (read_csv st key) (total_allowed st uid key) uid un now) = None \<and>
      fst (allocate_for_user st key uid un now) = st) \<and>
   (fst (snd (allocate_for_user st key uid un now)) \<noteq> [] \<longrightarrow>
      fst (worker (read_csv st key) (total_allowed st uid key) uid un now) =
        Some (fst (assign_records_csv (read_csv st key)
            (total_allowed st uid key - int (count_user_records (read_csv st key) uid)) uid un now)) \<and>
      fst (allocate_for_user st key uid un now) =
        write_csv st key (fst (assign_records_csv (read_csv st key)
            (total_allowed st uid key - int (count_user_records (read_csv st key) uid)) uid un now)) \<and>
      files (fst (allocate_for_user st key uid un now)) key =
        Some (fst (assign_records_csv (read_csv st key)
            (total_allowed st uid key - int (count_user_records (read_csv st key) uid)) uid un now)) \<and>
      int (count_user_records (read_csv (fst (allocate_for_user st key uid un now)) key) uid) =
        int (count_user_records (read_csv st key) uid) +
        int (length (fst (snd (allocate_for_user st key uid un now)))))"
proof -
  let ?rows = "read_csv st key"
  let ?give = "total_allowed st uid key - int (count_user_records ?rows uid)"
  assume h1: "int (count_user_records ?rows uid) < total_allowed st uid key"
    and h2: "free_count_all ?rows \<ge> ?give"
  obtain rows' taken where a: "assign_records_csv ?rows ?give uid un now = (rows', taken)"
    by (cases "assign_records_csv ?rows ?give uid un now") auto
  have w: "worker ?rows (total_allowed st uid key) uid un now =
      ((if taken \<noteq> [] then Some rows' else None), taken, None)"
    using h1 h2 a by (simp add: worker_cases)
  have c: "int (count_user_records rows' uid) = int (count_user_records ?rows uid) + int (length taken)"
    using a by (rule assign_records_csv_props(3))
  have f: "files (write_csv st key rows') key = Some rows'" by (simp add: write_csv_def)
  show ?thesis
    using w a c f
    by (simp add: allocate_for_user_def read_csv_write_csv)
qed

theorem allocate_success_without_claim_witness:
  "snd (allocate_for_user blank_store B_whatsapp 7 ''u'' ''t'') = ([], None) \<and>
   fst (allocate_for_user blank_store B_whatsapp 7 ''u'' ''t'') = blank_store \<and>
   snd (snd (allocate_for_user mixed_store B_whatsapp 7 ''u'' ''t'')) = None \<and>
   length (fst (snd (allocate_for_user mixed_store B_whatsapp 7 ''u'' ''t''))) = 35 \<and>
   count_user_records
     (read_csv (fst (allocate_for_user mixed_store B_whatsapp 7 ''u'' ''t'')) B_whatsapp) 7 = 35"
proof -
  have c: "count_user_records (read_csv blank_store B_whatsapp) 7 = 0" by code_simp
  have f: "free_count_all (read_csv blank_store B_whatsapp) = 35" by code_simp
  have t: "total_allowed blank_store 7 B_whatsapp = 35" by code_simp
  have e: "fst (snd (allocate_for_user blank_store B_whatsapp 7 ''u'' ''t'')) = []" by code_simp
  have h1: "int (count_user_records (read_csv blank_store B_whatsapp) 7) < total_allowed blank_store 7 B_whatsapp"
    using c t by simp
  have h2: "free_count_all (read_csv blank_store B_whatsapp) \<ge>
     total_allowed blank_store 7 B_whatsapp - int (count_user_records (read_csv blank_store B_whatsapp) 7)"
    using c f t by simp
  have c': "count_user_records (read_csv mixed_store B_whatsapp) 7 = 0" by code_simp
  have f': "free_count_all (read_csv mixed_store B_whatsapp) = 35" by code_simp
  have t': "total_allowed mixed_store 7 B_whatsapp = 35" by code_simp
  have e': "length (fst (snd (allocate_for_user mixed_store B_whatsapp 7 ''u'' ''t''))) = 35"
    by code_simp
  have g1: "int (count_user_records (read_csv mixed_store B_whatsapp) 7) < total_allowed mixed_store 7 B_whatsapp"
    using c' t' by simp
  have g2: "free_count_all (read_csv mixed_store B_whatsapp) \<ge>
     total_allowed mixed_store 7 B_whatsapp - int (count_user_records (read_csv mixed_store B_whatsapp) 7)"
    using c' f' t' by simp
  have ne: "fst (snd (allocate_for_user mixed_store B_whatsapp 7 ''u'' ''t'')) \<noteq> []"
    using e' by auto
  have blank: "snd (allocate_for_user blank_store B_whatsapp 7 ''u'' ''t'') = ([], None) \<and>
      fst (allocate_for_user blank_store B_whatsapp 7 ''u'' ''t'') = blank_store"
    using allocate_success_without_claim [OF h1 h2, of "''u''" "''t''"] e
    by (simp add: prod_eq_iff)
  note th = allocate_success_without_claim [OF g1 g2, of "''u''" "''t''"]
  have m1: "snd (snd (allocate_for_user mixed_store B_whatsapp 7 ''u'' ''t'')) = None"
    using th by blast
  have m2: "int (count_user_records
        (read_csv (fst (allocate_for_user mixed_store B_whatsapp 7 ''u'' ''t'')) B_whatsapp) 7) =
      int (count_user_records (read_csv mixed_store B_whatsapp) 7) +
      int (length (fst (snd (allocate_for_user mixed_store B_whatsapp 7 ''u'' ''t''))))"
    using th ne by blast
  have m3: "count_user_records
        (read_csv (fst (allocate_for_user mixed_store B_whatsapp 7 ''u'' ''t'')) B_whatsapp) 7 = 35"
    using m2 e' c' by simp
  show ?thesis using blank m1 m3 e' by simp
qed

section \<open>The import loop\<close>

lemma existing_loop_eq:
  "existing_loop rs vals = vals \<union> (\<lambda>r. lower (strip (r ! 0))) ` {r \<in> set rs. r \<noteq> [] \<and> r ! 0 \<noteq> []}"
  by (induction rs vals rule: existing_loop.induct) auto

lemma get_existing_values_eq: "get_existing_values rows = stored_keys rows"
  by (simp add: get_existing_values_def stored_keys_def existing_loop_eq)

lemma add_loop_append:
  "add_loop rows ex n (xs @ ys) =
     (case add_loop rows ex n xs of (r, e, a) \<Rightarrow> add_loop r e a ys)"
  by (induction xs arbitrary: rows ex n) (auto split: option.splits)

lemma add_loop_inv:
  "add_loop rows ex n cs = (r, e, a) \<Longrightarrow>
     \<exists>vs. r = rows @ map new_row vs \<and> e = ex \<union> lower ` set vs \<and> a = n + length vs \<and>
       set vs \<subseteq> {v. v \<noteq> [] \<and> (\<exists>c\<in>set cs. clean_value (COther c) = Some v)}"
proof (induction cs arbitrary: rows ex n)
  case Nil
  then show ?case by (auto intro: exI [of _ "[]"])
next
  case (Cons c cs)
  show ?case
  proof (cases "clean_value (COther c)")
    case None
    with Cons.prems have "add_loop rows ex n cs = (r, e, a)" by simp
    from Cons.IH [OF this] show ?thesis by auto
  next
    case (Some v)
    have vne: "v \<noteq> []" using Some by (auto simp: Let_def split: if_splits)
    show ?thesis
    proof (cases "lower v \<in> ex")
      case True
      with Some Cons.prems have "add_loop rows ex n cs = (r, e, a)" by simp
      from Cons.IH [OF this] show ?thesis by auto
    next
      case False
      with Some Cons.prems have
        "add_loop (rows @ [[v, [], [], []]]) (insert (lower v) ex) (n + 1) cs = (r, e, a)" by simp
      from Cons.IH [OF this] obtain vs where
        vs: "r = (rows @ [[v, [], [], []]]) @ map new_row vs" "e = insert (lower v) ex \<union> lower ` set vs"
            "a = n + 1 + length vs"
            "set vs \<subseteq> {v. v \<noteq> [] \<and> (\<exists>c\<in>set cs. clean_value (COther c) = Some v)}"
        by blast
      show ?thesis
        apply (rule exI [of _ "v # vs"])
        using vs Some vne by (auto simp: new_row_def)
    qed
  qed
qed

lemma add_loop_rows:
  "\<exists>vs. add_loop rows (get_existing_values rows) 0 cs =
           (rows @ map new_row vs, stored_keys rows \<union> lower ` set vs, length vs) \<and>
         added_rows rows cs = map new_row vs \<and>
         set vs \<subseteq> {v. v \<noteq> [] \<and> (\<exists>c\<in>set cs. clean_value (COther c) = Some v)}"
proof -
  obtain r e a where l: "add_loop rows (get_existing_values rows) 0 cs = (r, e, a)"
    by (cases "add_loop rows (get_existing_values rows) 0 cs") auto
  from add_loop_inv [OF l] obtain vs where
    vs: "r = rows @ map new_row vs" "e = get_existing_values rows \<union> lower ` set vs" "a = 0 + length vs"
        "set vs \<subseteq> {v. v \<noteq> [] \<and> (\<exists>c\<in>set cs. clean_value (COther c) = Some v)}"
    by blast
  show ?thesis
    apply (rule exI [of _ vs])
    using l vs by (simp add: added_rows_def get_existing_values_eq)
qed

lemma add_new_values_rows_eq:
  "add_new_values_rows rows cs =
     ((if added_rows rows cs \<noteq> [] then Some (rows @ added_rows rows cs) else None),
      length (added_rows rows cs))"
proof -
  from add_loop_rows [of rows cs] obtain vs where
    "add_loop rows (get_existing_values rows) 0 cs =
           (rows @ map new_row vs, stored_keys rows \<union> lower ` set vs, length vs)"
    "added_rows rows cs = map new_row vs" by blast
  then show ?thesis by (simp add: add_new_values_rows_def)
qed

lemma added_rows_snoc:
  "added_rows rows (pre @ [c]) = added_rows rows pre @
     (case clean_value (COther c) of
        None \<Rightarrow> []
      | Some v \<Rightarrow>
          if lower v \<in> stored_keys rows \<union> (\<lambda>r. lower (r ! 0)) ` set (added_rows rows pre)
          then [] else [[v, [], [], []]])"
proof -
  from add_loop_rows [of rows pre] obtain vs where
    l: "add_loop rows (get_existing_values rows) 0 pre =
           (rows @ map new_row vs, stored_keys rows \<union> lower ` set vs, length vs)"
    and a: "added_rows rows pre = map new_row vs" by blast
  have im: "(\<lambda>r. lower (r ! 0)) ` set (map new_row vs) = lower ` set vs"
    by (auto simp: new_row_def image_iff)
  show ?thesis
    unfolding added_rows_def [of rows "pre @ [c]"] add_loop_append l
    using a im by (auto simp: new_row_def simp del: clean_value.simps split: option.splits)
qed


lemma add_new_values_fst:
  "fst (add_new_values st key cs) =
     (if added_rows (read_csv st key) cs \<noteq> []
      then write_csv st key (read_csv st key @ added_rows (read_csv st key) cs) else st)"
  by (simp add: add_new_values_def add_new_values_rows_eq)

lemma add_new_values_snd:
  "snd (add_new_values st key cs) = length (added_rows (read_csv st key) cs)"
  by (simp add: add_new_values_def add_new_values_rows_eq)

lemma add_new_values_read:
  "read_csv (fst (add_new_values st key cs)) k =
     (if k = key then read_csv st key @ added_rows (read_csv st key) cs else read_csv st k)"
  by (simp add: add_new_values_fst read_csv_write_csv)

lemma add_new_values_frame:
  "user_limits (fst (add_new_values st key cs)) = user_limits st"
  "k \<noteq> key \<Longrightarrow> files (fst (add_new_values st key cs)) k = files st k"
  by (simp_all add: add_new_values_fst user_limits_write_csv files_write_csv)

lemma added_rows_shape:
  "r \<in> set (added_rows rows cs) \<Longrightarrow> \<exists>v. v \<noteq> [] \<and> r = [v, [], [], []]"
proof -
  assume m: "r \<in> set (added_rows rows cs)"
  from add_loop_rows [of rows cs] obtain vs where
    a: "added_rows rows cs = map new_row vs"
    and v: "set vs \<subseteq> {v. v \<noteq> [] \<and> (\<exists>c\<in>set cs. clean_value (COther c) = Some v)}"
    by blast
  from m a obtain v where "v \<in> set vs" "r = new_row v" by auto
  with v show ?thesis by (auto simp: new_row_def simp del: clean_value.simps)
qed

text \<open>
  Claim C8. The import only appends: the pool after the import is the pool before followed
  by the rows of the accepted values, each a value and three empty cells; the count returned
  is the number of those rows; every row that was there keeps its position and its cells;
  the other pools and the ledger are untouched.
\<close>

theorem import_only_appends:
  "read_csv (fst (add_new_values st key cs)) key =
     read_csv st key @ added_rows (read_csv st key) cs \<and>
   snd (add_new_values st key cs) = length (added_rows (read_csv st key) cs) \<and>
   (\<forall>r\<in>set (added_rows (read_csv st key) cs). \<exists>v. v \<noteq> [] \<and> r = [v, [], [], []]) \<and>
   (\<forall>i<length (read_csv st key).
      read_csv (fst (add_new_values st key cs)) key ! i = read_csv st key ! i) \<and>
   (\<forall>k. k \<noteq> key \<longrightarrow> files (fst (add_new_values st key cs)) k = files st k) \<and>
   user_limits (fst (add_new_values st key cs)) = user_limits st"
  using added_rows_shape [of _ "read_csv st key" cs]
  by (simp add: add_new_values_read add_new_values_snd add_new_values_frame nth_append)

theorem import_only_appends_witness:
  "read_csv (fst (add_new_values short_store B_telegram [''Foo'', ''b'', ''bar''])) B_telegram =
     [header, [''a'', [], [], []], [''b'', [], [], []], [''c'', [], [], []],
      [''Foo'', [], [], []], [''bar'', [], [], []]] \<and>
   snd (add_new_values short_store B_telegram [''Foo'', ''b'', ''bar'']) = 2 \<and>
   files (fst (add_new_values short_store B_telegram [''Foo'', ''b'', ''bar''])) B_email =
     files short_store B_email"
proof -
  have r: "read_csv short_store B_telegram =
      [header, [''a'', [], [], []], [''b'', [], [], []], [''c'', [], [], []]]"
    by code_simp
  have a: "added_rows (read_csv short_store B_telegram) [''Foo'', ''b'', ''bar''] =
      [[''Foo'', [], [], []], [''bar'', [], [], []]]"
    by code_simp
  show ?thesis
    using import_only_appends [of short_store B_telegram "[''Foo'', ''b'', ''bar'']"] r a
    by simp
qed

text \<open>
  Claim C6, as stated, compares the lowercased candidate with the lowercased values of the
  pool. The code trims the stored values first: against a pool that holds the value
  \<open>'' foo''\<close>, the candidate \<open>''foo''\<close> differs in lowercased form from every stored value
  and is not added.
\<close>

theorem import_dedup_counterexample:
  "clean_value (COther ''foo'') = Some ''foo'' \<and>
   lower ''foo'' \<notin> set (map (\<lambda>r. lower (r ! 0)) (drop 1 padded_pool)) \<and>
   add_new_values_rows padded_pool [''foo''] = (None, 0)"
  by code_simp

text \<open>
  Claim C6, amended. In a batch of trimmed candidates, a candidate that comes after the
  candidates \<open>pre\<close> is added exactly when it normalizes to a value whose lowercased form is
  neither the trimmed, lowercased form of a stored value of the pool (claimed or not) nor the
  lowercased form of a value added earlier in the batch; the count returned is the number of
  rows added; and importing \<open>Foo\<close>, \<open>foo\<close>, \<open>FOO\<close> into an empty pool adds one. Nothing is
  said of a batch with a candidate that keeps a blank in front.
\<close>

theorem import_dedup:
  "list_all trimmed_candidate (pre @ [c]) \<Longrightarrow>
   added_rows rows (pre @ [c]) = added_rows rows pre @
     (case clean_value (COther c) of
        None \<Rightarrow> []
      | Some v \<Rightarrow>
          if lower v \<in> stored_keys rows \<union> (\<lambda>r. lower (r ! 0)) ` set (added_rows rows pre)
          then [] else [[v, [], [], []]]) \<and>
   add_new_values_rows rows (pre @ [c]) =
     ((if added_rows rows (pre @ [c]) \<noteq> [] then Some (rows @ added_rows rows (pre @ [c])) else None),
      length (added_rows rows (pre @ [c]))) \<and>
   snd (add_new_values_rows [header] [''Foo'', ''foo'', ''FOO'']) = 1"
proof -
  have "snd (add_new_values_rows [header] [''Foo'', ''foo'', ''FOO'']) = 1" by code_simp
  then show ?thesis
    using added_rows_snoc [of rows pre c] add_new_values_rows_eq [of rows "pre @ [c]"]
    by (simp del: clean_value.simps)
qed

theorem import_dedup_witness:
  "list_all trimmed_candidate ([''bar''] @ [''Foo'']) \<and>
   added_rows padded_pool ([''bar''] @ [''Foo'']) = [[''bar'', [], [], []]]"
proof -
  have t: "list_all trimmed_candidate ([''bar''] @ [''Foo''])" by code_simp
  have a: "added_rows padded_pool [''bar''] = [[''bar'', [], [], []]]" by code_simp
  have c: "clean_value (COther ''Foo'') = Some ''Foo''" by code_simp
  have m: "lower ''Foo'' \<in> stored_keys padded_pool \<union>
      (\<lambda>r. lower (r ! 0)) ` set (added_rows padded_pool [''bar''])" by code_simp
  show ?thesis
    using import_dedup [OF t, of padded_pool] t a c m
    by (simp del: clean_value.simps)
qed

text \<open>
  Claim C7 at the candidate \<open>''= foo''\<close>: the value stored is \<open>'' foo''\<close>, with the blank
  left by the removal of the \<open>=\<close>; the next import compares the candidate with the trimmed
  key \<open>''foo''\<close>, so the same list is added a second time and the pool holds the value twice.
\<close>

theorem import_twice_adds_again:
  "snd (add_new_values empty_store B_telegram [''= foo'']) = 1 \<and>
   snd (add_new_values (fst (add_new_values empty_store B_telegram [''= foo''])) B_telegram
          [''= foo'']) = 1 \<and>
   read_csv (fst (add_new_values (fst (add_new_values empty_store B_telegram [''= foo'']))
          B_telegram [''= foo''])) B_telegram =
     [header, ['' foo'', [], [], []], ['' foo'', [], [], []]]"
  by code_simp

section \<open>Claims are written once\<close>

lemma fld_pad4: "fld (pad4 r) j = fld r j"
  by (auto simp: fld_def pad4_def nth_append)

lemma scan_step_claimed:
  "scan_step uid un now r r' \<Longrightarrow> claimed r \<Longrightarrow> fld r' j = fld r j"
  by (auto simp: scan_step_def fld_pad4)

lemma scan_step_refl: "scan_step uid un now r r"
  by (simp add: scan_step_def)

lemma worker_rel:
  "fst (worker rows allowed uid un now) = Some rows' \<Longrightarrow>
     list_all2 (scan_step uid un now) rows rows'"
  by (auto simp: worker_cases split: if_splits prod.splits dest: assign_records_csv_props(2))

lemma allocate_rel:
  "list_all2 (scan_step uid un now) (read_csv st k)
     (read_csv (fst (allocate_for_user st key uid un now)) k)"
proof (cases "fst (worker (read_csv st key) (total_allowed st uid key) uid un now)")
  case None
  then show ?thesis by (simp add: allocate_fst list_all2_refl scan_step_refl)
next
  case (Some rows')
  from worker_rel [OF Some] Some show ?thesis
    by (simp add: allocate_fst read_csv_write_csv list_all2_refl scan_step_refl)
qed

text \<open>
  Claim C3. An allocation changes a row of a pool only by padding it or, if the row was
  free, by claiming it: a row that has an identity keeps its value, identity, label and
  timestamp, at the same position. An import leaves every row that was there as it is, at
  the same position. So no operation of the two writes claim fields that are already set.
\<close>

theorem claims_written_once:
  "list_all2 (scan_step uid un now) (read_csv st k)
     (read_csv (fst (allocate_for_user st key uid un now)) k) \<and>
   (\<forall>i<length (read_csv st k). claimed (read_csv st k ! i) \<longrightarrow>
      i < length (read_csv (fst (allocate_for_user st key uid un now)) k) \<and>
      (\<forall>j. fld (read_csv (fst (allocate_for_user st key uid un now)) k ! i) j =
           fld (read_csv st k ! i) j)) \<and>
   (\<forall>i<length (read_csv st k).
      i < length (read_csv (fst (add_new_values st key cs)) k) \<and>
      read_csv (fst (add_new_values st key cs)) k ! i = read_csv st k ! i)"
proof -
  let ?a = "read_csv (fst (allocate_for_user st key uid un now)) k"
  have rel: "list_all2 (scan_step uid un now) (read_csv st k) ?a" by (rule allocate_rel)
  have len: "length ?a = length (read_csv st k)" using list_all2_lengthD [OF rel] by simp
  have a: "\<forall>i<length (read_csv st k). claimed (read_csv st k ! i) \<longrightarrow>
      i < length ?a \<and> (\<forall>j. fld (?a ! i) j = fld (read_csv st k ! i) j)"
    using len list_all2_nthD [OF rel] by (auto intro: scan_step_claimed)
  have b: "\<forall>i<length (read_csv st k).
      i < length (read_csv (fst (add_new_values st key cs)) k) \<and>
      read_csv (fst (add_new_values st key cs)) k ! i = read_csv st k ! i"
    by (simp add: add_new_values_read nth_append)
  show ?thesis using rel a b by blast
qed

theorem claims_written_once_witness:
  "fst (snd (allocate_for_user mixed_store B_whatsapp 7 ''u'' ''t'')) \<noteq> [] \<and>
   fld (read_csv (fst (allocate_for_user mixed_store B_whatsapp 7 ''u'' ''t'')) B_whatsapp ! 1) 1
     = ''9''"
proof -
  have t: "fst (snd (allocate_for_user mixed_store B_whatsapp 7 ''u'' ''t'')) \<noteq> []" by code_simp
  have l: "1 < length (read_csv mixed_store B_whatsapp)" by code_simp
  have c: "claimed (read_csv mixed_store B_whatsapp ! 1)" by code_simp
  have f: "fld (read_csv mixed_store B_whatsapp ! 1) 1 = ''9''" by code_simp
  show ?thesis
    using claims_written_once [of 7 "''u''" "''t''" mixed_store B_whatsapp B_whatsapp] t l c f
    by simp
qed

section \<open>Unlocking and the quota\<close>

lemma read_csv_set_extra: "read_csv (set_user_extra_limit st uid key v) k = read_csv st k"
  by (simp add: read_csv_def set_user_extra_limit_def)

lemma files_set_extra: "files (set_user_extra_limit st uid key v) = files st"
  by (simp add: set_user_extra_limit_def)

lemma user_limits_set_extra:
  "user_limits (set_user_extra_limit st uid key v) (u, k) =
     (if u = uid \<and> k = key then Some v else user_limits st (u, k))"
  by (simp add: set_user_extra_limit_def)

lemma total_allowed_set_extra:
  "total_allowed (set_user_extra_limit st uid key v) u k =
     (if u = uid \<and> k = key then base_limit key + v else total_allowed st u k)"
  by (simp add: total_allowed_def get_user_extra_limit_def user_limits_set_extra)

lemma exhausted_set_extra:
  "k \<noteq> key \<Longrightarrow> exhausted (set_user_extra_limit st uid key v) uid k = exhausted st uid k"
  by (simp add: exhausted_def read_csv_set_extra total_allowed_set_extra)

lemma clear_loop_Cons:
  "clear_loop st uid (key # keys) unlocked skipped =
     (if exhausted st uid key then
        clear_loop (set_user_extra_limit st uid key (int (count_user_records (read_csv st key) uid)))
          uid keys (unlocked @ [key]) skipped
      else clear_loop st uid keys unlocked
        (skipped @ [(key, total_allowed st uid key - int (count_user_records (read_csv st key) uid))]))"
  by (simp add: exhausted_def Let_def)

lemma clear_loop_files: "files (fst (clear_loop st uid ks ul sk)) = files st"
  by (induction ks arbitrary: st ul sk)
     (simp_all add: clear_loop_Cons files_set_extra del: clear_loop.simps(2))

lemma clear_loop_limits:
  "distinct ks \<Longrightarrow>
   user_limits (fst (clear_loop st uid ks ul sk)) (u, k) =
     (if u = uid \<and> k \<in> set ks \<and> exhausted st uid k
      then Some (int (count_user_records (read_csv st k) uid))
      else user_limits st (u, k))"
proof (induction ks arbitrary: st ul sk)
  case Nil
  then show ?case by simp
next
  case (Cons key keys)
  let ?st1 = "set_user_extra_limit st uid key (int (count_user_records (read_csv st key) uid))"
  have d: "distinct keys" "key \<notin> set keys" using Cons.prems by auto
  have e: "k \<in> set keys \<Longrightarrow> exhausted ?st1 uid k = exhausted st uid k"
    using d(2) exhausted_set_extra [of k key st uid] by blast
  show ?case
  proof (cases "exhausted st uid key")
    case True
    then show ?thesis
      using Cons.IH [OF d(1), of ?st1 "ul @ [key]" sk] d(2) e
      by (auto simp: clear_loop_Cons read_csv_set_extra user_limits_set_extra
               simp del: clear_loop.simps(2))
  next
    case False
    then show ?thesis
      using Cons.IH [OF d(1), of st ul] d(2)
      by (auto simp: clear_loop_Cons simp del: clear_loop.simps(2))
  qed
qed

lemma clear_loop_reports:
  "distinct ks \<Longrightarrow>
   snd (clear_loop st uid ks ul sk) =
     (ul @ filter (exhausted st uid) ks,
      sk @ map (\<lambda>k. (k, total_allowed st uid k - int (count_user_records (read_csv st k) uid)))
             (filter (\<lambda>k. \<not> exhausted st uid k) ks))"
proof (induction ks arbitrary: st ul sk)
  case Nil
  then show ?case by simp
next
  case (Cons key keys)
  let ?st1 = "set_user_extra_limit st uid key (int (count_user_records (read_csv st key) uid))"
  have d: "distinct keys" "key \<notin> set keys" using Cons.prems by auto
  have e: "\<forall>k\<in>set keys. exhausted ?st1 uid k = exhausted st uid k"
  proof
    fix k assume "k \<in> set keys"
    with d(2) have "k \<noteq> key" by auto
    then show "exhausted ?st1 uid k = exhausted st uid k" by (rule exhausted_set_extra)
  qed
  have t: "\<forall>k\<in>set keys. total_allowed ?st1 uid k = total_allowed st uid k"
    using d(2) by (auto simp: total_allowed_set_extra)
  have f1: "filter (exhausted ?st1 uid) keys = filter (exhausted st uid) keys"
    using e by (auto intro: filter_cong)
  have f2: "filter (\<lambda>k. \<not> exhausted ?st1 uid k) keys = filter (\<lambda>k. \<not> exhausted st uid k) keys"
    using e by (auto intro: filter_cong)
  have m: "map (\<lambda>k. (k, total_allowed ?st1 uid k - int (count_user_records (read_csv ?st1 k) uid)))
             (filter (\<lambda>k. \<not> exhausted st uid k) keys) =
           map (\<lambda>k. (k, total_allowed st uid k - int (count_user_records (read_csv st k) uid)))
             (filter (\<lambda>k. \<not> exhausted st uid k) keys)"
    using t by (auto simp: read_csv_set_extra)
  show ?case
  proof (cases "exhausted st uid key")
    case True
    then show ?thesis
      using Cons.IH [OF d(1), of ?st1 "ul @ [key]" sk] f1 f2 m
      by (simp add: clear_loop_Cons del: clear_loop.simps(2))
  next
    case False
    then show ?thesis
      using Cons.IH [OF d(1), of st ul]
      by (simp add: clear_loop_Cons del: clear_loop.simps(2))
  qed
qed

lemma distinct_used_types: "distinct (get_user_used_types st uid)"
  by (simp add: get_user_used_types_def base_keys_def)

lemma used_types_iff:
  "(key \<in> set (get_user_used_types st uid)) = (count_user_records (read_csv st key) uid > 0)"
  by (cases key) (auto simp: get_user_used_types_def base_keys_def)

lemma on_clear_command_eq:
  "on_clear_command st uid = clear_loop st uid (get_user_used_types st uid) [] []"
  by (simp add: on_clear_command_def Let_def)


text \<open>
  Claim C5. For a pool in which the identity holds at least one record, the unlocking sets
  the extra limit to the number of records held when that number has reached the base limit
  plus the current extra limit, so that the new allowance is that number plus the base limit,
  and reports the pool as unlocked; otherwise it leaves the ledger entry of the pool as it
  was and reports the pool as skipped with what remains. The pool files are not touched.
\<close>

theorem unlock_effect:
  "count_user_records (read_csv st key) uid > 0 \<Longrightarrow>
   files (fst (on_clear_command st uid)) = files st \<and>
   (if int (count_user_records (read_csv st key) uid)
         \<ge> base_limit key + get_user_extra_limit st uid key
    then get_user_extra_limit (fst (on_clear_command st uid)) uid key =
           int (count_user_records (read_csv st key) uid) \<and>
         total_allowed (fst (on_clear_command st uid)) uid key =
           int (count_user_records (read_csv st key) uid) + base_limit key \<and>
         key \<in> set (fst (snd (on_clear_command st uid)))
    else user_limits (fst (on_clear_command st uid)) (uid, key) = user_limits st (uid, key) \<and>
         key \<notin> set (fst (snd (on_clear_command st uid))) \<and>
         (key, base_limit key + get_user_extra_limit st uid key
                 - int (count_user_records (read_csv st key) uid))
           \<in> set (snd (snd (on_clear_command st uid))))"
proof -
  assume c: "count_user_records (read_csv st key) uid > 0"
  let ?ks = "get_user_used_types st uid"
  have k: "key \<in> set ?ks" using c by (simp add: used_types_iff)
  have d: "distinct ?ks" by (rule distinct_used_types)
  have l: "user_limits (fst (on_clear_command st uid)) (uid, key) =
      (if exhausted st uid key then Some (int (count_user_records (read_csv st key) uid))
       else user_limits st (uid, key))"
    using clear_loop_limits [OF d, of st uid "[]" "[]" uid key] k
    by (simp add: on_clear_command_eq)
  have r: "snd (on_clear_command st uid) =
     (filter (exhausted st uid) ?ks,
      map (\<lambda>k. (k, total_allowed st uid k - int (count_user_records (read_csv st k) uid)))
             (filter (\<lambda>k. \<not> exhausted st uid k) ?ks))"
    using clear_loop_reports [OF d, of st uid "[]" "[]"] by (simp add: on_clear_command_eq)
  have f: "files (fst (on_clear_command st uid)) = files st"
    by (simp add: on_clear_command_eq clear_loop_files)
  have e: "exhausted st uid key =
      (int (count_user_records (read_csv st key) uid) \<ge> base_limit key + get_user_extra_limit st uid key)"
    by (simp add: exhausted_def total_allowed_def)
  show ?thesis
  proof (cases "exhausted st uid key")
    case True
    then show ?thesis
      using l r f k e by (simp add: total_allowed_def get_user_extra_limit_def)
  next
    case False
    have "(key, total_allowed st uid key - int (count_user_records (read_csv st key) uid))
        \<in> set (snd (snd (on_clear_command st uid)))"
      using False k r by (simp add: image_iff)
    then show ?thesis
      using False l r f k e by (simp add: total_allowed_def)
  qed
qed

theorem unlock_effect_witness:
  "count_user_records (read_csv full_store B_whatsapp) 7 = 35 \<and>
   total_allowed full_store 7 B_whatsapp = 35 \<and>
   total_allowed (fst (on_clear_command full_store 7)) 7 B_whatsapp = 70"
proof -
  have c: "count_user_records (read_csv full_store B_whatsapp) 7 = 35" by code_simp
  have h: "count_user_records (read_csv full_store B_whatsapp) 7 > 0" using c by simp
  have g: "get_user_extra_limit full_store 7 B_whatsapp = 0" by code_simp
  show ?thesis
    using unlock_effect [OF h] c g by (simp add: total_allowed_def)
qed


lemma worker_Some:
  "fst (worker rows allowed uid un now) = Some rows' \<Longrightarrow>
     \<exists>taken. assign_records_csv rows (allowed - int (count_user_records rows uid)) uid un now
               = (rows', taken) \<and> taken \<noteq> []"
  by (auto simp: worker_cases split: if_splits prod.splits)

lemma total_allowed_write_csv: "total_allowed (write_csv st key rows) u k = total_allowed st u k"
  by (simp add: total_allowed_def get_user_extra_limit_def user_limits_write_csv)

lemma quota_ok_allocate:
  assumes "quota_ok st k u"
  shows "quota_ok (fst (allocate_for_user st key uid un now)) k u"
proof (cases "fst (worker (read_csv st key) (total_allowed st uid key) uid un now)")
  case None
  with assms show ?thesis by (simp add: allocate_fst)
next
  case (Some rows')
  let ?rows = "read_csv st key"
  let ?give = "total_allowed st uid key - int (count_user_records ?rows uid)"
  from worker_Some [OF Some] obtain taken where
    a: "assign_records_csv ?rows ?give uid un now = (rows', taken)" and t: "taken \<noteq> []"
    by blast
  have st': "fst (allocate_for_user st key uid un now) = write_csv st key rows'"
    using Some by (simp add: allocate_fst)
  show ?thesis
  proof (cases "k = key")
    case False
    with assms show ?thesis
      by (simp add: st' quota_ok_def read_csv_write_csv total_allowed_write_csv)
  next
    case True
    show ?thesis
    proof (cases "u = uid")
      case same: True
      have "int (count_user_records rows' uid) = int (count_user_records ?rows uid) + int (length taken)"
        using a by (rule assign_records_csv_props(3))
      moreover have "int (length taken) \<le> ?give"
        using assign_records_csv_props(4) [OF a t] .
      ultimately have "int (count_user_records rows' uid) \<le> total_allowed st uid key" by simp
      with True same show ?thesis
        by (simp add: st' quota_ok_def read_csv_write_csv total_allowed_write_csv)
    next
      case other: False
      have "count_user_records rows' u = count_user_records ?rows u"
        using assign_records_csv_props(5) [OF a other] .
      with assms True show ?thesis
        by (simp add: st' quota_ok_def read_csv_write_csv total_allowed_write_csv)
    qed
  qed
qed

lemma claimed_by_added: "r \<in> set (added_rows rows cs) \<Longrightarrow> \<not> claimed_by u r"
  by (auto dest!: added_rows_shape simp: claimed_by_def claimed_def)

lemma count_user_records_append:
  "\<forall>r\<in>set new. \<not> claimed_by u r \<Longrightarrow>
     count_user_records (rows @ new) u = count_user_records rows u"
proof -
  assume n: "\<forall>r\<in>set new. \<not> claimed_by u r"
  then have f: "filter (claimed_by u) new = []" by (simp add: filter_empty_conv)
  have g: "filter (claimed_by u) (drop 1 new) = []"
    using n by (auto simp: filter_empty_conv dest: in_set_dropD)
  show ?thesis
    using f g by (cases rows) (simp_all add: count_user_records_def count_user_loop_filter)
qed

lemma quota_ok_import:
  assumes "quota_ok st k u"
  shows "quota_ok (fst (add_new_values st key cs)) k u"
proof -
  have "count_user_records (read_csv (fst (add_new_values st key cs)) k) u =
        count_user_records (read_csv st k) u"
    using claimed_by_added [of _ "read_csv st key" cs u]
    by (simp add: add_new_values_read count_user_records_append)
  moreover have "total_allowed (fst (add_new_values st key cs)) u k = total_allowed st u k"
    by (simp add: total_allowed_def get_user_extra_limit_def add_new_values_frame)
  ultimately show ?thesis using assms by (simp add: quota_ok_def)
qed

lemma base_limit_nonneg: "0 \<le> base_limit key"
  by (cases key) simp_all

lemma read_csv_files: "files st' = files st \<Longrightarrow> read_csv st' k = read_csv st k"
  by (simp add: read_csv_def)

lemma quota_ok_unlock:
  assumes "quota_ok st k u"
  shows "quota_ok (fst (on_clear_command st uid)) k u"
proof -
  let ?st' = "fst (on_clear_command st uid)"
  have r: "read_csv ?st' k = read_csv st k"
    by (rule read_csv_files) (simp add: on_clear_command_eq clear_loop_files)
  have l: "user_limits ?st' (u, k) =
     (if u = uid \<and> k \<in> set (get_user_used_types st uid) \<and> exhausted st uid k
      then Some (int (count_user_records (read_csv st k) uid))
      else user_limits st (u, k))"
  proof -
    have d: "distinct (get_user_used_types st uid)" by (rule distinct_used_types)
    show ?thesis
      using clear_loop_limits [OF d, of st uid "[]" "[]" u k]
      by (simp add: on_clear_command_eq)
  qed
  show ?thesis
    using assms r l base_limit_nonneg [of k]
    by (auto simp: quota_ok_def total_allowed_def get_user_extra_limit_def split: if_splits)
qed

lemma quota_ok_set_extra:
  assumes "quota_ok st k u"
    and "int (count_user_records (read_csv st key) uid) \<le> base_limit key + v"
  shows "quota_ok (set_user_extra_limit st uid key v) k u"
  using assms by (auto simp: quota_ok_def read_csv_set_extra total_allowed_set_extra)

lemma quota_ok_step: "quota_ok st k u \<Longrightarrow> keeps_quota st x \<Longrightarrow> quota_ok (step st x) k u"
  by (cases x) (simp_all add: quota_ok_allocate quota_ok_import quota_ok_unlock quota_ok_set_extra)

text \<open>
  Claim C2, as stated, lets \<open>set_user_extra_limit\<close> be called with any value. The function
  overwrites the entry without looking at the pool: an identity that holds 36 records under
  an extra limit of 1 on a base limit of 35 is over its allowance once the extra limit is
  set to 0.
\<close>

theorem quota_invariant_counterexample:
  "quota_ok over_store B_whatsapp 7 \<and>
   \<not> quota_ok (foldl step over_store [SetExtra 7 B_whatsapp 0]) B_whatsapp 7"
  by code_simp

text \<open>
  Claim C2, amended. The quota of a pool and an identity is kept by every run of
  allocations, imports, unlockings and calls of \<open>set_user_extra_limit\<close> whose value covers
  what the addressed identity holds in the addressed pool at that moment.
\<close>

theorem quota_invariant:
  "quota_ok st k u \<Longrightarrow> admissible st ops \<Longrightarrow> quota_ok (foldl step st ops) k u"
proof (induction ops arbitrary: st)
  case Nil
  then show ?case by simp
next
  case (Cons x xs)
  from Cons.prems have "quota_ok (step st x) k u" "admissible (step st x) xs"
    by (simp_all add: quota_ok_step)
  then show ?case using Cons.IH by simp
qed

theorem quota_invariant_witness:
  "quota_ok full_store B_whatsapp 7 \<and>
   admissible full_store
     [Unlock 7, SetExtra 7 B_whatsapp 40, Import B_whatsapp [''a'', ''b''],
      Allocate B_whatsapp 7 ''u'' ''t''] \<and>
   quota_ok (foldl step full_store
     [Unlock 7, SetExtra 7 B_whatsapp 40, Import B_whatsapp [''a'', ''b''],
      Allocate B_whatsapp 7 ''u'' ''t'']) B_whatsapp 7"
proof -
  have q: "quota_ok full_store B_whatsapp 7" by code_simp
  have a: "admissible full_store
     [Unlock 7, SetExtra 7 B_whatsapp 40, Import B_whatsapp [''a'', ''b''],
      Allocate B_whatsapp 7 ''u'' ''t'']" by code_simp
  show ?thesis using q a quota_invariant [OF q a] by simp
qed

section \<open>Statistics of a pool\<close>








section \<open>A success with a short batch\<close>

text \<open>
  Claim C1 at a pool whose first record has the value \<open>=\<close> (what the import stores for
  the candidate \<open>==\<close>) followed by 34 free records with values: a fresh identity has 35
  records left to claim, the supply check counts 35 free rows, and the answer is a success
  with 34 values, since the scan passes over the record whose value is empty once the
  \<open>=\<close> is removed.
\<close>

theorem allocate_short_batch:
  "added_rows [header] [''==''] = [[''='', [], [], []]] \<and>
   count_user_records (read_csv short_batch_store B_whatsapp) 7 = 0 \<and>
   total_allowed short_batch_store 7 B_whatsapp = 35 \<and>
   free_count_all (read_csv short_batch_store B_whatsapp) = 35 \<and>
   snd (snd (allocate_for_user short_batch_store B_whatsapp 7 ''u'' ''t'')) = None \<and>
   length (fst (snd (allocate_for_user short_batch_store B_whatsapp 7 ''u'' ''t''))) = 34"
  by code_simp

end
